theory Spec2Isabelle
  imports Main "HOL-Library.Word" "HOL-Library.Sublist"
begin

unbundle bit_operations_syntax

section \<open>Wire constants (main.cpp, lines 12-20)\<close>

type_synonym byte = "8 word"

definition START_BYTE_BINARY_BLOCK :: byte where
  "START_BYTE_BINARY_BLOCK = 0x24"

definition ENDING_TEXT_BLOCK :: "byte list" where
  "ENDING_TEXT_BLOCK = [0x0D, 0x0A, 0x0D, 0x0A]"

text \<open>
  \<open>union BinSize { Byte bytes[4]; uint32_t size; }\<close>: reading \<open>size\<close> after the four
  bytes were written is a reinterpretation of memory. The program calls glibc's
  \<open>__bswap_32\<close> and is built for a little-endian host, where \<open>bytes[0]\<close> is the least
  significant byte of \<open>size\<close>; that layout is what the two functions below write out.
\<close>

definition BinSize_size :: "byte \<Rightarrow> byte \<Rightarrow> byte \<Rightarrow> byte \<Rightarrow> 32 word" where
  "BinSize_size b0 b1 b2 b3 =
     ucast b0 OR push_bit 8 (ucast b1) OR push_bit 16 (ucast b2) OR push_bit 24 (ucast b3)"

definition BinSize_bytes :: "32 word \<Rightarrow> byte list" where
  "BinSize_bytes w = [ucast w, ucast (drop_bit 8 w), ucast (drop_bit 16 w), ucast (drop_bit 24 w)]"

text \<open>glibc's \<open>__bswap_32\<close>: the four bytes of a 32-bit value in reverse order.\<close>

definition bswap_32 :: "32 word \<Rightarrow> 32 word" where
  "bswap_32 x =
     drop_bit 24 (x AND 0xff000000) OR drop_bit 8 (x AND 0x00ff0000) OR
     push_bit 8 (x AND 0x0000ff00) OR push_bit 24 (x AND 0x000000ff)"

definition BINARY_HEADER_SIZE :: nat where
  "BINARY_HEADER_SIZE = 1 + 4"

section \<open>The callback (main.cpp, lines 46-83)\<close>

text \<open>
  \<open>ICallback\<close> has two notifications. The calls a receiver makes are recorded in the
  order they happen, each with a copy of the bytes it was handed.
\<close>

datatype packet = BinaryPacket "byte list" | TextPacket "byte list"

fun packet_bytes :: "packet \<Rightarrow> byte list" where
  "packet_bytes (BinaryPacket bs) = bs"
| "packet_bytes (TextPacket bs) = bs"

section \<open>\<open>std::search\<close>\<close>

text \<open>
  \<open>search xs pat\<close> is the offset from the start of \<open>xs\<close> of the first place where
  \<open>pat\<close> begins, and \<open>length xs\<close> (the end iterator) when there is none.
\<close>

fun search :: "'a list \<Rightarrow> 'a list \<Rightarrow> nat" where
  "search [] pat = 0"
| "search (x # xs) pat = (if prefix pat (x # xs) then 0 else Suc (search xs pat))"

section \<open>\<open>Receiver::Receive\<close> (main.cpp, lines 98-162)\<close>

text \<open>
  Pointers into the scanned block are offsets from \<open>beginData\<close>: \<open>ptr\<close> is the cursor
  and \<open>data\<close> the local that line 130 moves and line 132 reads back. One round of the
  \<open>while\<close> loop either leaves it (\<open>Break\<close>, with the value \<open>ptr\<close> has at that moment)
  or makes one call of the callback and goes round again (\<open>Continue\<close>, with the packet,
  the new \<open>ptr\<close> and the new \<open>data\<close>).
\<close>

datatype round = Break nat | Continue packet nat nat

definition payloadSize_at :: "byte list \<Rightarrow> nat \<Rightarrow> nat" where
  "payloadSize_at buf p =
     unat (bswap_32 (BinSize_size (buf ! p) (buf ! (p + 1)) (buf ! (p + 2)) (buf ! (p + 3))))"

definition loop_body :: "byte list \<Rightarrow> nat \<Rightarrow> nat \<Rightarrow> round" where
  "loop_body buf data ptr =
     (if buf ! ptr = START_BYTE_BINARY_BLOCK then
        (if length buf - ptr > BINARY_HEADER_SIZE then
           (let ptr1 = ptr + 1;
                payloadSize = payloadSize_at buf ptr1;
                ptr2 = ptr1 + 4;
                left = length buf - ptr2
            in if payloadSize \<le> left
               then Continue (BinaryPacket (take payloadSize (drop ptr2 buf)))
                      (ptr2 + payloadSize) (ptr2 + payloadSize)
               else Break data)
         else Break ptr)
      else
        (let it = ptr + search (drop ptr buf) ENDING_TEXT_BLOCK
         in if it \<noteq> length buf
            then (let packetSize = it - ptr
                  in Continue (TextPacket (take packetSize (drop ptr buf)))
                       (ptr + (packetSize + length ENDING_TEXT_BLOCK)) data)
            else Break ptr))"

function scan :: "byte list \<Rightarrow> nat \<Rightarrow> nat \<Rightarrow> packet list \<Rightarrow> nat \<times> packet list" where
  "scan buf data ptr out =
     (if ptr < length buf then
        (case loop_body buf data ptr of
           Break p \<Rightarrow> (p, out)
         | Continue pk ptr' data' \<Rightarrow> scan buf data' ptr' (out @ [pk]))
      else (ptr, out))"
  by pat_completeness auto

termination
proof (relation "measure (\<lambda>(buf, data, ptr, out). length buf - ptr)")
  show "wf (measure (\<lambda>(buf, data, ptr, out). length buf - ptr))"
    by simp
next
  fix buf :: "byte list" and data ptr :: nat and out :: "packet list" and pk ptr' data'
  assume lt: "ptr < length buf" and "loop_body buf data ptr = Continue pk ptr' data'"
  then have "ptr < ptr'"
    by (auto simp: loop_body_def Let_def ENDING_TEXT_BLOCK_def split: if_splits)
  with lt show "((buf, data', ptr', out @ [pk]), (buf, data, ptr, out))
               \<in> measure (\<lambda>(buf, data, ptr, out). length buf - ptr)"
    by simp
qed

declare scan.simps [simp del]

text \<open>
  The receiver owns \<open>buffer\<close>; \<open>calls\<close> is the record of what its callback has been
  handed so far.
\<close>

record receiver =
  buffer :: "byte list"
  calls :: "packet list"

definition new_receiver :: receiver where
  "new_receiver = \<lparr>buffer = [], calls = []\<rparr>"

definition Receive :: "receiver \<Rightarrow> byte list \<Rightarrow> receiver" where
  "Receive r input =
     (if length input = 0 then r
      else
        (let buffer1 = (if buffer r \<noteq> [] then buffer r @ input else buffer r);
             block = (if buffer r \<noteq> [] then buffer1 else input);
             (ptr, out) = scan block 0 0 [];
             processedBytes = ptr;
             unprocessedBytes = length block - processedBytes
         in if buffer1 \<noteq> [] \<and> processedBytes > 0
            then \<lparr>buffer = drop processedBytes buffer1, calls = calls r @ out\<rparr>
            else if buffer1 = [] \<and> unprocessedBytes > 0
            then \<lparr>buffer = buffer1 @ take unprocessedBytes (drop ptr block), calls = calls r @ out\<rparr>
            else \<lparr>buffer = buffer1, calls = calls r @ out\<rparr>))"

text \<open>A caller handing the receiver one block after another.\<close>

definition Receive_all :: "receiver \<Rightarrow> byte list list \<Rightarrow> receiver" where
  "Receive_all r blocks = foldl Receive r blocks"

section \<open>The encoder (main.cpp, lines 169-221) and the test's decoder (lines 227-231)\<close>

text \<open>
  \<open>pack\<close> is a template over the types of a tuple. A tuple is a list of arguments here:
  a \<open>const char *\<close> with the characters before its NUL, or a value of any other type
  with its object representation, whose length is \<open>sizeof(value)\<close>.
\<close>

datatype arg = CString "byte list" | Pod "byte list"

fun pack_arg :: "arg \<Rightarrow> byte list" where
  "pack_arg (Pod rep) =
     START_BYTE_BINARY_BLOCK # BinSize_bytes (bswap_32 (of_nat (length rep))) @ rep"
| "pack_arg (CString s) = s @ ENDING_TEXT_BLOCK"

definition pack :: "arg list \<Rightarrow> byte list" where
  "pack values = concat (map pack_arg values)"

text \<open>
  The object representation of a \<open>long long\<close> on the little-endian host, and the read
  through \<open>reinterpret_cast<long long *>\<close> that \<open>isTopValueEqual\<close> makes of the
  bytes the callback kept. The read takes eight bytes whatever the vector holds; on a
  vector of fewer than eight bytes it leaves the vector and has no defined value, which
  is \<open>None\<close> here.
\<close>

definition long_long_rep :: "64 word \<Rightarrow> byte list" where
  "long_long_rep v = map (\<lambda>i. ucast (drop_bit (8 * i) v)) [0..<8]"

definition long_long_at :: "byte list \<Rightarrow> 64 word option" where
  "long_long_at bs =
     (if length bs < 8 then None
      else Some (foldr (\<lambda>b acc. ucast b OR push_bit 8 acc) (take 8 bs) 0))"

text \<open>The block of the last test of \<open>main\<close> (lines 292-293).\<close>

definition binBlock :: "byte list" where
  "binBlock = pack [Pod (long_long_rep 123456789)]"

section \<open>Notions of the specification\<close>

text \<open>
  These two follow the words of the specification and are what the code is compared
  with. \<open>occurs_at pat xs k\<close>: the sequence \<open>pat\<close> occurs in \<open>xs\<close> starting at offset
  \<open>k\<close>. \<open>big_endian_32\<close>: four bytes read as an unsigned 32-bit number, the first byte
  the most significant.
\<close>

definition occurs_at :: "'a list \<Rightarrow> 'a list \<Rightarrow> nat \<Rightarrow> bool" where
  "occurs_at pat xs k \<longleftrightarrow> k + length pat \<le> length xs \<and> take (length pat) (drop k xs) = pat"

definition big_endian_32 :: "byte \<Rightarrow> byte \<Rightarrow> byte \<Rightarrow> byte \<Rightarrow> nat" where
  "big_endian_32 b0 b1 b2 b3 = unat b0 * 2 ^ 24 + unat b1 * 2 ^ 16 + unat b2 * 2 ^ 8 + unat b3"

section \<open>Facts about \<open>search\<close>\<close>

lemma length_ENDING_TEXT_BLOCK: "length ENDING_TEXT_BLOCK = 4"
  by (simp add: ENDING_TEXT_BLOCK_def)

lemma search_le: "search xs pat \<le> length xs"
  by (induction xs) auto

lemma occurs_at_0_prefix: "occurs_at pat xs 0 \<longleftrightarrow> prefix pat xs"
  unfolding occurs_at_def prefix_def
  by (metis append_eq_conv_conj append_take_drop_id drop0 length_append le_add1 add_0)

lemma occurs_at_Suc: "occurs_at pat (x # xs) (Suc k) \<longleftrightarrow> occurs_at pat xs k"
  by (simp add: occurs_at_def)

lemma search_first:
  assumes "occurs_at pat xs k" and "\<forall>j<k. \<not> occurs_at pat xs j"
  shows "search xs pat = k"
  using assms
proof (induction xs arbitrary: k)
  case Nil
  then show ?case by (simp add: occurs_at_def)
next
  case (Cons x xs)
  show ?case
  proof (cases k)
    case 0
    with Cons.prems show ?thesis by (simp add: occurs_at_0_prefix)
  next
    case (Suc k')
    with Cons.prems have "\<not> prefix pat (x # xs)"
      using occurs_at_0_prefix [of pat "x # xs"] by blast
    moreover have "search xs pat = k'"
    proof (rule Cons.IH)
      show "occurs_at pat xs k'"
        using Cons.prems(1) Suc by (simp add: occurs_at_Suc)
      show "\<forall>j<k'. \<not> occurs_at pat xs j"
        using Cons.prems(2) Suc occurs_at_Suc [of pat x xs] by auto
    qed
    ultimately show ?thesis using Suc by simp
  qed
qed

lemma search_none:
  assumes "\<forall>j. \<not> occurs_at pat xs j"
  shows "search xs pat = length xs"
  using assms
proof (induction xs)
  case Nil
  then show ?case by simp
next
  case (Cons x xs)
  have "\<not> prefix pat (x # xs)"
    using Cons.prems occurs_at_0_prefix [of pat "x # xs"] by blast
  moreover have "\<forall>j. \<not> occurs_at pat xs j"
    using Cons.prems occurs_at_Suc [of pat x xs] by blast
  ultimately show ?case using Cons.IH by simp
qed

lemma no_occurrence_before_first:
  assumes "\<forall>j<k. \<not> occurs_at pat xs j" and "pat \<noteq> []"
  shows "\<not> occurs_at pat (take k xs) j"
proof
  assume occ: "occurs_at pat (take k xs) j"
  then have le1: "j + length pat \<le> k" and le2: "j + length pat \<le> length xs"
    by (simp_all add: occurs_at_def)
  have "take (length pat) (drop j (take k xs)) = take (length pat) (drop j xs)"
    using le1 by (simp add: drop_take min_def)
  with occ le2 have "occurs_at pat xs j"
    by (simp add: occurs_at_def)
  moreover have "j < k"
    using le1 assms(2) by (cases pat) simp_all
  ultimately show False
    using assms(1) by blast
qed

lemma split_at_occurrence:
  assumes "occurs_at pat xs k"
  shows "xs = take k xs @ pat @ drop (k + length pat) xs"
proof -
  have "take (length pat) (drop k xs) = pat"
    using assms by (simp add: occurs_at_def)
  moreover have "drop (length pat) (drop k xs) = drop (k + length pat) xs"
    by (simp add: add.commute)
  ultimately have "drop k xs = pat @ drop (k + length pat) xs"
    by (metis append_take_drop_id)
  then show ?thesis
    by (metis append_take_drop_id)
qed

section \<open>The text branch of the loop (lines 138-150)\<close>

lemma loop_body_text:
  assumes "ptr < length buf" and "buf ! ptr \<noteq> START_BYTE_BINARY_BLOCK"
  shows "loop_body buf data ptr =
     (if search (drop ptr buf) ENDING_TEXT_BLOCK \<noteq> length buf - ptr
      then Continue (TextPacket (take (search (drop ptr buf) ENDING_TEXT_BLOCK) (drop ptr buf)))
             (ptr + search (drop ptr buf) ENDING_TEXT_BLOCK + 4) data
      else Break ptr)"
proof -
  have "(ptr + search (drop ptr buf) ENDING_TEXT_BLOCK \<noteq> length buf)
          = (search (drop ptr buf) ENDING_TEXT_BLOCK \<noteq> length buf - ptr)"
    using assms(1) by auto
  then show ?thesis
    using assms(2) by (simp add: loop_body_def Let_def length_ENDING_TEXT_BLOCK add.assoc)
qed

lemma occurs_at_lt:
  assumes "occurs_at ENDING_TEXT_BLOCK (drop ptr buf) k"
  shows "ptr + k + 4 \<le> length buf" and "k < length buf - ptr" and "ptr < length buf"
  using assms by (auto simp: occurs_at_def length_ENDING_TEXT_BLOCK)

lemma loop_body_first_occurrence:
  assumes "buf ! ptr \<noteq> START_BYTE_BINARY_BLOCK"
    and "occurs_at ENDING_TEXT_BLOCK (drop ptr buf) k"
    and "\<forall>j<k. \<not> occurs_at ENDING_TEXT_BLOCK (drop ptr buf) j"
  shows "loop_body buf data ptr = Continue (TextPacket (take k (drop ptr buf))) (ptr + k + 4) data"
proof -
  have "search (drop ptr buf) ENDING_TEXT_BLOCK = k"
    using assms(2,3) by (rule search_first)
  then show ?thesis
    using assms(1) occurs_at_lt(2,3) [OF assms(2)] by (simp add: loop_body_text)
qed

lemma scan_Continue:
  assumes "ptr < length buf" and "loop_body buf data ptr = Continue pk ptr' data'"
  shows "scan buf data ptr out = scan buf data' ptr' (out @ [pk])"
  using assms by (simp add: scan.simps [of buf data ptr])

lemma scan_Break:
  assumes "ptr < length buf" and "loop_body buf data ptr = Break p"
  shows "scan buf data ptr out = (p, out)"
  using assms by (simp add: scan.simps [of buf data ptr])

text \<open>
  C5. In a round of the loop whose cursor is on a byte other than the marker: if the
  terminator occurs in the rest of the block, first at offset \<open>k\<close> from the cursor, the
  callback gets \<open>TextPacket\<close> with exactly the \<open>k\<close> bytes before it, these bytes hold
  no occurrence of the terminator, the four bytes between them and the new cursor are
  the terminator, and the scan goes on from behind it; if the terminator occurs nowhere
  in the rest of the block, the loop is left with the cursor where the text began.
\<close>

theorem text_frame_round:
  assumes "ptr < length buf" and "buf ! ptr \<noteq> START_BYTE_BINARY_BLOCK"
  shows "(occurs_at ENDING_TEXT_BLOCK (drop ptr buf) k \<and>
          (\<forall>j<k. \<not> occurs_at ENDING_TEXT_BLOCK (drop ptr buf) j) \<longrightarrow>
            loop_body buf data ptr =
              Continue (TextPacket (take k (drop ptr buf))) (ptr + k + 4) data \<and>
            (\<forall>j. \<not> occurs_at ENDING_TEXT_BLOCK (take k (drop ptr buf)) j) \<and>
            drop ptr buf = take k (drop ptr buf) @ ENDING_TEXT_BLOCK @ drop (ptr + k + 4) buf \<and>
            scan buf data ptr out =
              scan buf data (ptr + k + 4) (out @ [TextPacket (take k (drop ptr buf))])) \<and>
         ((\<forall>j. \<not> occurs_at ENDING_TEXT_BLOCK (drop ptr buf) j) \<longrightarrow>
            loop_body buf data ptr = Break ptr \<and> scan buf data ptr out = (ptr, out))"
proof (intro conjI impI)
  assume none: "\<forall>j. \<not> occurs_at ENDING_TEXT_BLOCK (drop ptr buf) j"
  show brk: "loop_body buf data ptr = Break ptr"
    using search_none [OF none] assms by (simp add: loop_body_text)
  show "scan buf data ptr out = (ptr, out)"
    using assms(1) brk by (rule scan_Break)
next
  assume first: "occurs_at ENDING_TEXT_BLOCK (drop ptr buf) k \<and>
          (\<forall>j<k. \<not> occurs_at ENDING_TEXT_BLOCK (drop ptr buf) j)"
  show cont: "loop_body buf data ptr =
      Continue (TextPacket (take k (drop ptr buf))) (ptr + k + 4) data"
    using assms(2) first by (simp add: loop_body_first_occurrence)
  show "scan buf data ptr out =
      scan buf data (ptr + k + 4) (out @ [TextPacket (take k (drop ptr buf))])"
    using assms(1) cont by (rule scan_Continue)
  show "\<forall>j. \<not> occurs_at ENDING_TEXT_BLOCK (take k (drop ptr buf)) j"
    using first no_occurrence_before_first [of k ENDING_TEXT_BLOCK "drop ptr buf"]
    by (simp add: ENDING_TEXT_BLOCK_def)
  show "drop ptr buf = take k (drop ptr buf) @ ENDING_TEXT_BLOCK @ drop (ptr + k + 4) buf"
    using split_at_occurrence [of ENDING_TEXT_BLOCK "drop ptr buf" k] first
    by (simp add: length_ENDING_TEXT_BLOCK ac_simps)
qed

theorem text_frame_round_witness:
  "loop_body [0x61, 0x62, 0x0D, 0x0A, 0x0D, 0x0A, 0x63] 0 0 = Continue (TextPacket [0x61, 0x62]) 6 0 \<and>
   scan [0x61, 0x62, 0x0D, 0x0A, 0x0D, 0x0A, 0x63] 0 0 [] =
     scan [0x61, 0x62, 0x0D, 0x0A, 0x0D, 0x0A, 0x63] 0 6 [TextPacket [0x61, 0x62]] \<and>
   loop_body [0x61, 0x62, 0x0D, 0x0A, 0x0D] 0 0 = Break 0 \<and>
   scan [0x61, 0x62, 0x0D, 0x0A, 0x0D] 0 0 [] = (0, [])"
proof -
  let ?b1 = "[0x61, 0x62, 0x0D, 0x0A, 0x0D, 0x0A, 0x63] :: byte list"
  let ?b2 = "[0x61, 0x62, 0x0D, 0x0A, 0x0D] :: byte list"
  have m1: "?b1 ! 0 \<noteq> START_BYTE_BINARY_BLOCK" and m2: "?b2 ! 0 \<noteq> START_BYTE_BINARY_BLOCK"
    by (simp_all add: START_BYTE_BINARY_BLOCK_def)
  have l1: "0 < length ?b1" and l2: "0 < length ?b2"
    by simp_all
  have "\<forall>j<2. \<not> occurs_at ENDING_TEXT_BLOCK (drop 0 ?b1) j"
  proof (intro allI impI notI)
    fix j :: nat
    assume "j < 2" and o: "occurs_at ENDING_TEXT_BLOCK (drop 0 ?b1) j"
    then have "j = 0 \<or> j = 1"
      by arith
    then show False
      using o by (auto simp: occurs_at_def ENDING_TEXT_BLOCK_def)
  qed
  moreover have "occurs_at ENDING_TEXT_BLOCK (drop 0 ?b1) 2"
    by (simp add: occurs_at_def ENDING_TEXT_BLOCK_def)
  ultimately have f: "occurs_at ENDING_TEXT_BLOCK (drop 0 ?b1) 2 \<and>
           (\<forall>j<2. \<not> occurs_at ENDING_TEXT_BLOCK (drop 0 ?b1) j)"
    by simp
  have n: "\<forall>j. \<not> occurs_at ENDING_TEXT_BLOCK (drop 0 ?b2) j"
  proof (intro allI notI)
    fix j
    assume o: "occurs_at ENDING_TEXT_BLOCK (drop 0 ?b2) j"
    then have "j = 0 \<or> j = 1"
      by (auto simp: occurs_at_def ENDING_TEXT_BLOCK_def)
    then show False
      using o by (auto simp: occurs_at_def ENDING_TEXT_BLOCK_def)
  qed
  from text_frame_round [OF l1 m1, of 2 0 "[]"] f text_frame_round [OF l2 m2, of 0 0 "[]"] n
  show ?thesis
    by simp
qed

text \<open>
  C10. When the terminator stands at the cursor itself (the byte there is then \<open>0x0D\<close>,
  not the marker), the round calls \<open>TextPacket\<close> with no bytes and the scan goes on
  four bytes further.
\<close>

theorem empty_text_frame:
  assumes "occurs_at ENDING_TEXT_BLOCK (drop ptr buf) 0"
  shows "buf ! ptr \<noteq> START_BYTE_BINARY_BLOCK \<and>
         loop_body buf data ptr = Continue (TextPacket []) (ptr + 4) data \<and>
         scan buf data ptr out = scan buf data (ptr + 4) (out @ [TextPacket []])"
proof -
  have lt: "ptr < length buf"
    using assms by (rule occurs_at_lt(3))
  have "take 4 (drop ptr buf) = ENDING_TEXT_BLOCK"
    using assms by (simp add: occurs_at_def length_ENDING_TEXT_BLOCK)
  then have "hd (drop ptr buf) = 0x0D"
    by (metis ENDING_TEXT_BLOCK_def hd_take list.sel(1) zero_less_numeral)
  then have nm: "buf ! ptr \<noteq> START_BYTE_BINARY_BLOCK"
    using lt by (simp add: hd_drop_conv_nth START_BYTE_BINARY_BLOCK_def)
  have "loop_body buf data ptr = Continue (TextPacket (take 0 (drop ptr buf))) (ptr + 0 + 4) data"
    using nm assms by (rule loop_body_first_occurrence) simp
  then have cont: "loop_body buf data ptr = Continue (TextPacket []) (ptr + 4) data"
    by simp
  show ?thesis
    using nm cont scan_Continue [OF lt cont] by simp
qed

theorem empty_text_frame_witness:
  "loop_body [0x0D, 0x0A, 0x0D, 0x0A, 0x0D, 0x0A, 0x0D, 0x0A] 0 4 = Continue (TextPacket []) 8 0 \<and>
   scan [0x0D, 0x0A, 0x0D, 0x0A, 0x0D, 0x0A, 0x0D, 0x0A] 0 4 [TextPacket []] =
     scan [0x0D, 0x0A, 0x0D, 0x0A, 0x0D, 0x0A, 0x0D, 0x0A] 0 8 [TextPacket [], TextPacket []] \<and>
   calls (Receive new_receiver [0x0D, 0x0A, 0x0D, 0x0A, 0x0D, 0x0A, 0x0D, 0x0A]) =
     [TextPacket [], TextPacket []]"
proof -
  let ?b = "[0x0D, 0x0A, 0x0D, 0x0A, 0x0D, 0x0A, 0x0D, 0x0A] :: byte list"
  have o: "occurs_at ENDING_TEXT_BLOCK (drop 4 ?b) 0"
    by (simp add: occurs_at_def ENDING_TEXT_BLOCK_def)
  have "calls (Receive new_receiver ?b) = [TextPacket [], TextPacket []]"
    by code_simp
  with empty_text_frame [OF o, of 0 "[TextPacket []]"] show ?thesis
    by simp
qed

section \<open>The length field (lines 16-20 and 117-125)\<close>

lemma mask_ff: "(0xff :: 32 word) = mask 8"
  by (simp add: mask_eq_exp_minus_1)

lemma mask_ff00: "(0xff00 :: 32 word) = push_bit 8 (mask 8)"
  by (simp add: mask_eq_exp_minus_1 push_bit_eq_mult)

lemma mask_ff0000: "(0xff0000 :: 32 word) = push_bit 16 (mask 8)"
  by (simp add: mask_eq_exp_minus_1 push_bit_eq_mult)

lemma mask_ff000000: "(0xff000000 :: 32 word) = push_bit 24 (mask 8)"
  by (simp add: mask_eq_exp_minus_1 push_bit_eq_mult)

lemma byte_bit_lt: "bit (b :: byte) n \<Longrightarrow> n < 8"
  using bit_imp_le_length [of b n] by simp

lemma bswap_byte0: "push_bit 24 (BinSize_size b0 b1 b2 b3 AND 0xff) = push_bit 24 (ucast b0)"
  unfolding BinSize_size_def mask_ff
  by (rule bit_word_eqI) (auto simp: bit_simps dest: byte_bit_lt)

lemma bswap_byte1: "push_bit 8 (BinSize_size b0 b1 b2 b3 AND 0xff00) = push_bit 16 (ucast b1)"
  unfolding BinSize_size_def mask_ff00
  by (rule bit_word_eqI) (auto simp: bit_simps dest: byte_bit_lt)

lemma bswap_byte2: "drop_bit 8 (BinSize_size b0 b1 b2 b3 AND 0xff0000) = push_bit 8 (ucast b2)"
  unfolding BinSize_size_def mask_ff0000
  by (rule bit_word_eqI) (auto simp: bit_simps dest: byte_bit_lt)

lemma bswap_byte3: "drop_bit 24 (BinSize_size b0 b1 b2 b3 AND 0xff000000) = ucast b3"
  unfolding BinSize_size_def mask_ff000000
  by (rule bit_word_eqI) (auto simp: bit_simps dest: byte_bit_lt)

lemma bswap_32_BinSize_size:
  "bswap_32 (BinSize_size b0 b1 b2 b3) =
     push_bit 24 (ucast b0) OR push_bit 16 (ucast b1) OR push_bit 8 (ucast b2) OR ucast b3"
  unfolding bswap_32_def bswap_byte0 bswap_byte1 bswap_byte2 bswap_byte3
  by (simp add: ac_simps)

lemma unat_push_ucast:
  assumes "k \<le> 24"
  shows "unat (push_bit k (ucast (b :: byte) :: 32 word)) = unat b * 2 ^ k"
proof -
  have "unat (push_bit k (ucast b :: 32 word)) = push_bit k (unat b)"
    unfolding unsigned_push_bit_eq unsigned_ucast_eq
  proof (rule bit_eqI)
    fix n
    show "bit (take_bit LENGTH(32) (push_bit k (take_bit LENGTH(32) (unat b)))) n
            = bit (push_bit k (unat b)) n"
      using assms byte_bit_lt [of b "n - k"] by (auto simp: bit_simps)
  qed
  then show ?thesis
    by (simp add: push_bit_eq_mult)
qed

lemma shifted_add_eq_or:
  assumes "b < 2 ^ k"
  shows "a * 2 ^ k + b = a * 2 ^ k OR (b::nat)"
proof (rule disjunctive_add)
  fix n
  have "take_bit k b = b"
    using assms by (rule take_bit_nat_eq_self)
  then have "bit b n \<Longrightarrow> n < k"
    by (metis bit_take_bit_iff)
  moreover have "bit (a * 2 ^ k) n \<Longrightarrow> k \<le> n"
    using bit_push_bit_iff_nat [of k a n] by (simp add: push_bit_eq_mult)
  ultimately show "\<not> bit (a * 2 ^ k) n \<or> \<not> bit b n"
    by fastforce
qed

lemma unat_byte_lt: "unat (b :: byte) < 2 ^ 8"
  using unsigned_less [of b, where ?'a = nat] by simp

lemma unat_bswap_32_BinSize_size:
  "unat (bswap_32 (BinSize_size b0 b1 b2 b3)) = big_endian_32 b0 b1 b2 b3"
proof -
  have u3: "unat (ucast b3 :: 32 word) = unat b3"
    using unat_push_ucast [of 0 b3] by simp
  have u2: "unat (push_bit 8 (ucast b2 :: 32 word)) = unat b2 * 2 ^ 8"
    by (rule unat_push_ucast) simp
  have u1: "unat (push_bit 16 (ucast b1 :: 32 word)) = unat b1 * 2 ^ 16"
    by (rule unat_push_ucast) simp
  have u0: "unat (push_bit 24 (ucast b0 :: 32 word)) = unat b0 * 2 ^ 24"
    by (rule unat_push_ucast) simp
  have s2: "unat b2 * 2 ^ 8 + unat b3 = unat b2 * 2 ^ 8 OR unat b3"
    using unat_byte_lt by (rule shifted_add_eq_or)
  have "unat b2 * 2 ^ 8 + unat b3 < 2 ^ 16"
    using unat_byte_lt [of b2] unat_byte_lt [of b3] by simp
  then have s1: "unat b1 * 2 ^ 16 + (unat b2 * 2 ^ 8 + unat b3)
                   = unat b1 * 2 ^ 16 OR (unat b2 * 2 ^ 8 + unat b3)"
    by (rule shifted_add_eq_or)
  have "unat b1 * 2 ^ 16 + (unat b2 * 2 ^ 8 + unat b3) < 2 ^ 24"
    using unat_byte_lt [of b1] unat_byte_lt [of b2] unat_byte_lt [of b3] by simp
  then have s0: "unat b0 * 2 ^ 24 + (unat b1 * 2 ^ 16 + (unat b2 * 2 ^ 8 + unat b3))
                   = unat b0 * 2 ^ 24 OR (unat b1 * 2 ^ 16 + (unat b2 * 2 ^ 8 + unat b3))"
    by (rule shifted_add_eq_or)
  have "unat (bswap_32 (BinSize_size b0 b1 b2 b3))
          = unat b0 * 2 ^ 24 OR (unat b1 * 2 ^ 16 OR (unat b2 * 2 ^ 8 OR unat b3))"
    by (simp only: bswap_32_BinSize_size unsigned_or_eq u0 u1 u2 u3 or.assoc)
  also have "\<dots> = unat b0 * 2 ^ 24 + (unat b1 * 2 ^ 16 + (unat b2 * 2 ^ 8 + unat b3))"
    by (simp only: s0 [symmetric] s1 [symmetric] s2 [symmetric])
  finally show ?thesis
    by (simp only: big_endian_32_def add.assoc)
qed

text \<open>
  C7. In a round whose cursor is on the marker with more than \<open>BINARY_HEADER_SIZE\<close>
  bytes left, the payload size the code computes from the four bytes behind the marker
  is their big-endian value \<open>L\<close> (first byte most significant); the round hands the
  callback a \<open>BinaryPacket\<close> exactly when \<open>L\<close> bytes are present behind the length
  field, and the packet is then those \<open>L\<close> bytes.
\<close>

theorem length_field_big_endian:
  assumes "buf ! ptr = START_BYTE_BINARY_BLOCK" and "BINARY_HEADER_SIZE < length buf - ptr"
  shows "(let L = big_endian_32 (buf ! (ptr + 1)) (buf ! (ptr + 2)) (buf ! (ptr + 3)) (buf ! (ptr + 4))
          in payloadSize_at buf (ptr + 1) = L \<and>
             loop_body buf data ptr =
               (if L \<le> length buf - (ptr + 5)
                then Continue (BinaryPacket (take L (drop (ptr + 5) buf))) (ptr + 5 + L) (ptr + 5 + L)
                else Break data) \<and>
             (L \<le> length buf - (ptr + 5) \<longrightarrow> length (take L (drop (ptr + 5) buf)) = L))"
proof -
  have p: "payloadSize_at buf (ptr + 1) =
      big_endian_32 (buf ! (ptr + 1)) (buf ! (ptr + 2)) (buf ! (ptr + 3)) (buf ! (ptr + 4))"
  proof -
    have "ptr + 1 + 1 = ptr + 2" and "ptr + 1 + 2 = ptr + 3" and "ptr + 1 + 3 = ptr + 4"
      by simp_all
    then show ?thesis
      by (simp only: payloadSize_at_def unat_bswap_32_BinSize_size)
  qed
  have "ptr + 1 + 4 = ptr + 5"
    by simp
  then show ?thesis
    using assms by (simp only: Let_def loop_body_def p [symmetric]) simp
qed

theorem length_field_big_endian_witness:
  "loop_body [0x24, 0, 0, 0, 2, 0xAA, 0xBB, 0xCC] 0 0 = Continue (BinaryPacket [0xAA, 0xBB]) 7 7 \<and>
   loop_body [0x24, 0, 0, 1, 0, 0xAA, 0xBB, 0xCC] 0 0 = Break 0"
proof -
  let ?b1 = "[0x24, 0, 0, 0, 2, 0xAA, 0xBB, 0xCC] :: byte list"
  let ?b2 = "[0x24, 0, 0, 1, 0, 0xAA, 0xBB, 0xCC] :: byte list"
  have m1: "?b1 ! 0 = START_BYTE_BINARY_BLOCK" and m2: "?b2 ! 0 = START_BYTE_BINARY_BLOCK"
    by (simp_all add: START_BYTE_BINARY_BLOCK_def)
  have h1: "BINARY_HEADER_SIZE < length ?b1 - 0" and h2: "BINARY_HEADER_SIZE < length ?b2 - 0"
    by (simp_all add: BINARY_HEADER_SIZE_def)
  from length_field_big_endian [OF m1 h1, of 0] length_field_big_endian [OF m2 h2, of 0]
  show ?thesis
    by (simp add: big_endian_32_def Let_def)
qed

section \<open>Whole calls of \<open>Receive\<close>\<close>

lemma Receive_eq_scan:
  assumes "input \<noteq> []" and "scan (buffer r @ input) 0 0 [] = (ptr, out)"
  shows "buffer (Receive r input) = drop ptr (buffer r @ input)"
    and "calls (Receive r input) = calls r @ out"
  using assms by (cases "buffer r = []"; simp add: Receive_def Let_def)+

text \<open>
  C9. A call with no bytes returns at line 103: the callback is not called and the
  buffer is what it was.
\<close>

theorem Receive_nothing: "Receive r [] = r"
  by (simp add: Receive_def)

lemma binBlock_length: "length binBlock = 13"
  by code_simp

lemma binBlock_cuts:
  "list_all
     (\<lambda>i. Receive_all new_receiver [take i binBlock, drop i binBlock] =
            \<lparr>buffer = [], calls = [BinaryPacket (long_long_rep 123456789)]\<rparr>)
     [1, 2, 3, 4, 5, 6, 7, 8, 9, 10, 11, 12]"
  by code_simp

lemma long_long_123456789: "long_long_at (long_long_rep 123456789) = Some 123456789"
  by code_simp

text \<open>
  C8. The block packed from the \<open>long long\<close> 123456789, cut at any place \<open>i\<close> from 1
  to its length minus 1 and handed to a new receiver as two blocks, gives one call of
  the callback, a \<open>BinaryPacket\<close> with exactly the eight bytes of the value, and these
  bytes read as a \<open>long long\<close> are 123456789.
\<close>

theorem split_scenario:
  "\<forall>i \<in> {1 ..< length binBlock}.
     calls (Receive_all new_receiver [take i binBlock, drop i binBlock]) =
       [BinaryPacket (long_long_rep 123456789)] \<and>
     map (long_long_at \<circ> packet_bytes)
       (calls (Receive_all new_receiver [take i binBlock, drop i binBlock])) =
       [Some 123456789]"
proof
  fix i
  assume "i \<in> {1 ..< length binBlock}"
  then have "i \<in> set [1, 2, 3, 4, 5, 6, 7, 8, 9, 10, 11, 12]"
    unfolding binBlock_length by (simp del: One_nat_def) arith
  with binBlock_cuts
  have "Receive_all new_receiver [take i binBlock, drop i binBlock] =
          \<lparr>buffer = [], calls = [BinaryPacket (long_long_rep 123456789)]\<rparr>"
    unfolding list_all_iff by blast
  then have c: "calls (Receive_all new_receiver [take i binBlock, drop i binBlock]) =
               [BinaryPacket (long_long_rep 123456789)]"
    by simp
  show "calls (Receive_all new_receiver [take i binBlock, drop i binBlock]) =
          [BinaryPacket (long_long_rep 123456789)] \<and>
        map (long_long_at \<circ> packet_bytes)
          (calls (Receive_all new_receiver [take i binBlock, drop i binBlock])) =
          [Some 123456789]"
    unfolding c using long_long_123456789 by simp
qed

theorem split_scenario_witness:
  "calls (Receive_all new_receiver [take 3 binBlock, drop 3 binBlock]) =
     [BinaryPacket (long_long_rep 123456789)] \<and>
   map (long_long_at \<circ> packet_bytes)
     (calls (Receive_all new_receiver [take 3 binBlock, drop 3 binBlock])) =
     [Some 123456789]"
proof -
  have "(3 :: nat) \<in> {1 ..< length binBlock}"
    by (simp add: binBlock_length)
  with split_scenario show ?thesis
    by (rule bspec)
qed

section \<open>Blocks on which \<open>Receive\<close> departs from the specification\<close>

text \<open>
  C1. The stream \<open>a\<close>, terminator, marker, length 2, \<open>X\<close>, \<open>Y\<close>: handed over in one
  block it gives \<open>TextPacket a\<close> and \<open>BinaryPacket XY\<close>; cut before \<open>Y\<close> it gives
  \<open>TextPacket a\<close> twice, then \<open>BinaryPacket XY\<close>.
\<close>

theorem fragmentation_changes_calls:
  "calls (Receive_all new_receiver
            [[0x61, 0x0D, 0x0A, 0x0D, 0x0A, 0x24, 0, 0, 0, 2, 0x58], [0x59]]) =
     [TextPacket [0x61], TextPacket [0x61], BinaryPacket [0x58, 0x59]] \<and>
   calls (Receive new_receiver
            ([0x61, 0x0D, 0x0A, 0x0D, 0x0A, 0x24, 0, 0, 0, 2, 0x58] @ [0x59])) =
     [TextPacket [0x61], BinaryPacket [0x58, 0x59]]"
  by code_simp

text \<open>
  C2. A stream of 21 bytes (ten digits, terminator, marker, length 2, \<open>X\<close>, \<open>Y\<close>) cut
  before its last byte: the first call hands the ten digits to the callback, the second
  call hands them over again, and the callback receives 22 bytes in all.
\<close>

theorem bytes_delivered_twice:
  "calls (Receive new_receiver
     [0x30, 0x31, 0x32, 0x33, 0x34, 0x35, 0x36, 0x37, 0x38, 0x39,
      0x0D, 0x0A, 0x0D, 0x0A, 0x24, 0, 0, 0, 2, 0x58]) =
     [TextPacket [0x30, 0x31, 0x32, 0x33, 0x34, 0x35, 0x36, 0x37, 0x38, 0x39]] \<and>
   calls (Receive_all new_receiver
     [[0x30, 0x31, 0x32, 0x33, 0x34, 0x35, 0x36, 0x37, 0x38, 0x39,
       0x0D, 0x0A, 0x0D, 0x0A, 0x24, 0, 0, 0, 2, 0x58], [0x59]]) =
     [TextPacket [0x30, 0x31, 0x32, 0x33, 0x34, 0x35, 0x36, 0x37, 0x38, 0x39],
      TextPacket [0x30, 0x31, 0x32, 0x33, 0x34, 0x35, 0x36, 0x37, 0x38, 0x39],
      BinaryPacket [0x58, 0x59]] \<and>
   sum_list (map (length \<circ> packet_bytes) (calls (Receive_all new_receiver
     [[0x30, 0x31, 0x32, 0x33, 0x34, 0x35, 0x36, 0x37, 0x38, 0x39,
       0x0D, 0x0A, 0x0D, 0x0A, 0x24, 0, 0, 0, 2, 0x58], [0x59]]))) = 22 \<and>
   length (concat
     [[0x30, 0x31, 0x32, 0x33, 0x34, 0x35, 0x36, 0x37, 0x38, 0x39,
       0x0D, 0x0A, 0x0D, 0x0A, 0x24, 0, 0, 0, 2, 0x58], [0x59 :: byte]]) = 21"
  by code_simp

text \<open>
  C3. In the block \<open>a\<close>, terminator, marker, length 2, \<open>X\<close> the marker is at offset 5,
  six bytes are left from it, the length field says 2 and one byte follows it. The
  scan, which reaches that round with \<open>data\<close> still 0, ends with the cursor at 0.
\<close>

theorem cursor_reset_before_marker:
  "[0x61, 0x0D, 0x0A, 0x0D, 0x0A, 0x24, 0, 0, 0, 2, 0x58] ! 5 = START_BYTE_BINARY_BLOCK \<and>
   BINARY_HEADER_SIZE < length [0x61, 0x0D, 0x0A, 0x0D, 0x0A, 0x24, 0, 0, 0, 2, 0x58 :: byte] - 5 \<and>
   payloadSize_at [0x61, 0x0D, 0x0A, 0x0D, 0x0A, 0x24, 0, 0, 0, 2, 0x58] 6 = 2 \<and>
   length [0x61, 0x0D, 0x0A, 0x0D, 0x0A, 0x24, 0, 0, 0, 2, 0x58 :: byte] - 10 = 1 \<and>
   loop_body [0x61, 0x0D, 0x0A, 0x0D, 0x0A, 0x24, 0, 0, 0, 2, 0x58] 0 0 =
     Continue (TextPacket [0x61]) 5 0 \<and>
   loop_body [0x61, 0x0D, 0x0A, 0x0D, 0x0A, 0x24, 0, 0, 0, 2, 0x58] 0 5 = Break 0 \<and>
   scan [0x61, 0x0D, 0x0A, 0x0D, 0x0A, 0x24, 0, 0, 0, 2, 0x58] 0 0 [] = (0, [TextPacket [0x61]])"
  by code_simp

text \<open>
  C4. A block that is exactly the header of a binary packet of length 0: no call of the
  callback, the five bytes go to the buffer. With one more byte behind it the same
  header gives \<open>BinaryPacket\<close> with no bytes.
\<close>

theorem empty_binary_frame_deferred:
  "Receive new_receiver [0x24, 0, 0, 0, 0] = \<lparr>buffer = [0x24, 0, 0, 0, 0], calls = []\<rparr> \<and>
   loop_body [0x24, 0, 0, 0, 0] 0 0 = Break 0 \<and>
   Receive new_receiver [0x24, 0, 0, 0, 0, 0x24] = \<lparr>buffer = [0x24], calls = [BinaryPacket []]\<rparr>"
  by code_simp

text \<open>
  C6. After the block \<open>a\<close>, terminator, marker, length 2, \<open>X\<close> the callback has been
  handed \<open>TextPacket a\<close>, and the buffer holds the whole block, the text packet and its
  terminator included, not only the six bytes from the marker on.
\<close>

theorem buffer_keeps_delivered_frame:
  "Receive new_receiver [0x61, 0x0D, 0x0A, 0x0D, 0x0A, 0x24, 0, 0, 0, 2, 0x58] =
     \<lparr>buffer = [0x61, 0x0D, 0x0A, 0x0D, 0x0A, 0x24, 0, 0, 0, 2, 0x58],
      calls = [TextPacket [0x61]]\<rparr> \<and>
   drop 5 [0x61, 0x0D, 0x0A, 0x0D, 0x0A, 0x24, 0, 0, 0, 2, 0x58 :: byte] = [0x24, 0, 0, 0, 2, 0x58]"
  by code_simp

end
